theory Spec2Isabelle
  imports Main "HOL-Library.Word" "HOL-Library.Signed_Division"
begin

section \<open>Data model of dejavu.go\<close>

text \<open>
  A digest is Go's \<^verbatim>\<open>[sha256.Size]byte\<close>: an array of exactly 32 bytes, compared by
  value and usable as a map key. The zero value of the type is the array of 32 zero
  bytes; it is what \<^verbatim>\<open>make\<close> puts into every slot of a new ring buffer.
  \<open>filled_digest b\<close> is the digest whose 32 bytes all equal \<open>b\<close>; it supplies
  concrete, pairwise different digests for the worked examples.
\<close>

type_synonym byte = "8 word"

typedef digest = "{bs :: byte list. length bs = 32}"
  morphisms bytes_of Digest
proof
  show "replicate 32 0 \<in> {bs :: byte list. length bs = 32}"
    by simp
qed

definition filled_digest :: "byte \<Rightarrow> digest" where
  "filled_digest b = Digest (replicate 32 b)"

definition zero_digest :: digest where
  "zero_digest = filled_digest 0"

text \<open>
  The two run-time panics the code can raise: an index outside the ring buffer
  (lines 50 and 55) and the remainder by a zero \<^verbatim>\<open>size\<close> (line 57).
\<close>

datatype error = IndexOutOfRange | DivideByZero

text \<open>
  The struct \<^verbatim>\<open>deterministic\<close>. Go's \<^verbatim>\<open>int\<close> fields are integers here: the cursor
  stays below the length of an allocated slice, so \<^verbatim>\<open>index + 1\<close> cannot overflow.
  The field \<^verbatim>\<open>size\<close> is called \<open>size_d\<close>, since \<open>size\<close> is a constant of HOL.
  The mutex is not a field of the model: the model is the sequential behaviour of the
  critical section between \<^verbatim>\<open>Lock\<close> and \<^verbatim>\<open>Unlock\<close>.
\<close>

record deterministic =
  buffer :: "digest list"
  size_d :: int
  index :: int
  lookup :: "digest \<rightharpoonup> int"

section \<open>Operations\<close>

text \<open>
  \<^verbatim>\<open>NewDejaVuDeterministic(entrieLimit uint)\<close>, lines 34 to 42. The function has no
  error result and no check of its argument. \<^verbatim>\<open>make\<close> panics on a length that cannot
  be allocated, long before \<^verbatim>\<open>int(entrieLimit)\<close> could wrap; the model covers the
  instances that were allocated, where the conversion is the identity.
\<close>

definition NewDejaVuDeterministic :: "nat \<Rightarrow> deterministic" where
  "NewDejaVuDeterministic entrieLimit =
     \<lparr>buffer = replicate entrieLimit zero_digest,
      size_d = int entrieLimit,
      index = 0,
      lookup = Map.empty\<rparr>"

text \<open>Go's bounds check on \<^verbatim>\<open>xs[i]\<close>.\<close>

definition in_bounds :: "int \<Rightarrow> 'a list \<Rightarrow> bool" where
  "in_bounds i xs \<longleftrightarrow> 0 \<le> i \<and> i < int (length xs)"

text \<open>
  Go's one-result map read \<^verbatim>\<open>m[k]\<close>: the stored value, or the zero value \<open>0\<close> of
  \<^verbatim>\<open>int\<close> when the key is absent.
\<close>

definition map_index :: "(digest \<rightharpoonup> int) \<Rightarrow> digest \<Rightarrow> int" where
  "map_index m k = (case m k of None \<Rightarrow> 0 | Some v \<Rightarrow> v)"

text \<open>Line 49: \<^verbatim>\<open>maxed := len(d.buffer) == d.size\<close>.\<close>

definition maxed :: "deterministic \<Rightarrow> bool" where
  "maxed d \<longleftrightarrow> int (length (buffer d)) = size_d d"

text \<open>
  Line 50, the condition of the pruning branch:
  \<^verbatim>\<open>maxed && (d.lookup[d.buffer[d.index]] == d.index)\<close>.
\<close>

definition prunes :: "deterministic \<Rightarrow> bool" where
  "prunes d \<longleftrightarrow> maxed d \<and> map_index (lookup d) (buffer d ! nat (index d)) = index d"

text \<open>
  \<^verbatim>\<open>WitnessDigest\<close>, lines 44 to 61. The slot \<^verbatim>\<open>d.buffer[d.index]\<close> is read at line 50
  when \<^verbatim>\<open>maxed\<close> holds and written at line 55 in every case, so a cursor outside the
  buffer panics at one of the two lines before anything was changed. Line 51 deletes
  the key of the slot's old content, line 55 overwrites the slot, line 56 stores the
  cursor under the new digest, and line 57 advances the cursor with Go's truncated
  remainder, which panics on a zero \<^verbatim>\<open>size\<close>. A panic leaves the mutex locked, so
  the instance takes no further call: the error carries no state.
\<close>

definition WitnessDigest :: "digest \<Rightarrow> deterministic \<Rightarrow> error + bool \<times> deterministic" where
  "WitnessDigest dataDigest d =
     (let familiar = (lookup d dataDigest \<noteq> None) in
      if \<not> in_bounds (index d) (buffer d) then Inl IndexOutOfRange
      else
        let lookup1 = (if prunes d then (lookup d)(buffer d ! nat (index d) := None)
                       else lookup d);
            buffer1 = (buffer d)[nat (index d) := dataDigest];
            lookup2 = lookup1(dataDigest \<mapsto> index d)
        in if size_d d = 0 then Inl DivideByZero
           else Inr (familiar,
                  d\<lparr>buffer := buffer1, lookup := lookup2,
                    index := (index d + 1) smod size_d d\<rparr>))"

text \<open>
  \<^verbatim>\<open>Witness\<close>, lines 63 to 65. \<^verbatim>\<open>sha256.Sum256\<close> belongs to Go's standard library,
  not to this package: it is a parameter.
\<close>

definition Witness ::
  "(byte list \<Rightarrow> digest) \<Rightarrow> byte list \<Rightarrow> deterministic \<Rightarrow> error + bool \<times> deterministic" where
  "Witness Sum256 data d = WitnessDigest (Sum256 data) d"

section \<open>Sequences of calls on one instance\<close>

text \<open>
  A caller that makes one call after the other on the same instance; the answers are
  collected in order, and the first panic ends the run.
\<close>

fun WitnessDigest_seq ::
  "digest list \<Rightarrow> deterministic \<Rightarrow> error + bool list \<times> deterministic" where
  "WitnessDigest_seq [] d = Inr ([], d)"
| "WitnessDigest_seq (f # fs) d =
     (case WitnessDigest f d of
        Inl e \<Rightarrow> Inl e
      | Inr (familiar, d') \<Rightarrow>
          (case WitnessDigest_seq fs d' of
             Inl e \<Rightarrow> Inl e
           | Inr (rs, d'') \<Rightarrow> Inr (familiar # rs, d'')))"

fun Witness_seq ::
  "(byte list \<Rightarrow> digest) \<Rightarrow> byte list list \<Rightarrow> deterministic \<Rightarrow>
   error + bool list \<times> deterministic" where
  "Witness_seq Sum256 [] d = Inr ([], d)"
| "Witness_seq Sum256 (b # bs) d =
     (case Witness Sum256 b d of
        Inl e \<Rightarrow> Inl e
      | Inr (familiar, d') \<Rightarrow>
          (case Witness_seq Sum256 bs d' of
             Inl e \<Rightarrow> Inl e
           | Inr (rs, d'') \<Rightarrow> Inr (familiar # rs, d'')))"

text \<open>
  The state of an instance of capacity \<open>n\<close> after the calls \<open>hs\<close>, and the answers a
  fresh instance of capacity \<open>n\<close> gives to the calls \<open>fs\<close>.
\<close>

definition state_after :: "nat \<Rightarrow> digest list \<Rightarrow> deterministic option" where
  "state_after n hs =
     (case WitnessDigest_seq hs (NewDejaVuDeterministic n) of
        Inl e \<Rightarrow> None
      | Inr (rs, d) \<Rightarrow> Some d)"

definition witness_results :: "nat \<Rightarrow> digest list \<Rightarrow> error + bool list" where
  "witness_results n fs =
     (case WitnessDigest_seq fs (NewDejaVuDeterministic n) of
        Inl e \<Rightarrow> Inl e
      | Inr (rs, d) \<Rightarrow> Inr rs)"

section \<open>The retention window and the invariants\<close>

text \<open>
  The retention window of capacity \<open>n\<close> after the calls \<open>hs\<close> (oldest first): the
  digests of the last \<open>n\<close> calls, all of them while fewer than \<open>n\<close> were made.
  \<open>familiar_seq n hs fs\<close> is the answer the contract prescribes for each call of
  \<open>fs\<close> made after \<open>hs\<close>: whether the digest is in the window at that moment.
\<close>

definition window :: "nat \<Rightarrow> digest list \<Rightarrow> digest list" where
  "window n hs = drop (length hs - n) hs"

fun familiar_seq :: "nat \<Rightarrow> digest list \<Rightarrow> digest list \<Rightarrow> bool list" where
  "familiar_seq n hs [] = []"
| "familiar_seq n hs (f # fs) = (f \<in> set (window n hs)) # familiar_seq n (hs @ [f]) fs"

text \<open>
  Call number \<open>t\<close> (counted from 0) is the newest occurrence of \<open>f\<close> and is still
  among the last \<open>n\<close> calls. Call \<open>t\<close> writes slot \<open>t mod n\<close>.
\<close>

definition newest_at :: "nat \<Rightarrow> digest list \<Rightarrow> digest \<Rightarrow> nat \<Rightarrow> bool" where
  "newest_at n hs f t \<longleftrightarrow>
     t < length hs \<and> length hs \<le> t + n \<and> hs ! t = f \<and>
     (\<forall>t'. t < t' \<and> t' < length hs \<longrightarrow> hs ! t' \<noteq> f)"

text \<open>
  The invariant that ties an instance of capacity \<open>n\<close> to the calls \<open>hs\<close> made on
  it: the cursor is the number of calls modulo \<open>n\<close>, each of the last \<open>n\<close> calls is
  in its slot, a slot never written holds the zero digest, and the lookup map sends a
  digest to the slot of its newest occurrence in the window and knows no other digest.
\<close>

definition dv_inv :: "nat \<Rightarrow> digest list \<Rightarrow> deterministic \<Rightarrow> bool" where
  "dv_inv n hs d \<longleftrightarrow>
     size_d d = int n \<and> length (buffer d) = n \<and> index d = int (length hs mod n) \<and>
     (\<forall>t<length hs. length hs \<le> t + n \<longrightarrow> buffer d ! (t mod n) = hs ! t) \<and>
     (\<forall>j<n. length hs \<le> j \<longrightarrow> buffer d ! j = zero_digest) \<and>
     (\<forall>f i. lookup d f = Some i \<longleftrightarrow> (\<exists>t. newest_at n hs f t \<and> i = int (t mod n)))"

text \<open>The lookup map after lines 50 to 52, before the new digest is stored.\<close>

definition pruned_lookup :: "deterministic \<Rightarrow> digest \<rightharpoonup> int" where
  "pruned_lookup d =
     (if prunes d then (lookup d)(buffer d ! nat (index d) := None) else lookup d)"

text \<open>
  Soundness of the lookup map: an entry \<open>f \<mapsto> i\<close> points into the buffer, at a slot
  that holds \<open>f\<close>.
\<close>

definition index_sound :: "deterministic \<Rightarrow> bool" where
  "index_sound d \<longleftrightarrow>
     (\<forall>f i. lookup d f = Some i \<longrightarrow> in_bounds i (buffer d) \<and> buffer d ! nat i = f)"

section \<open>Auxiliary facts\<close>

lemma filled_digest_eq [simp]: "filled_digest a = filled_digest b \<longleftrightarrow> a = b"
  by (simp add: filled_digest_def Digest_inject replicate_eq_replicate)

subsection \<open>Arithmetic of slots\<close>

text \<open>
  On a cursor that is not negative and a positive size, Go's truncated remainder is the
  mathematical one. Two of the last \<open>n\<close> calls share a slot only if they are \<open>n\<close>
  calls apart.
\<close>

lemma smod_nonneg: "0 \<le> a \<Longrightarrow> 0 < b \<Longrightarrow> a smod b = a mod (b::int)"
  by (simp add: signed_modulo_int_def sgn_if)

lemma same_slot_iff:
  fixes n t k :: nat
  assumes "0 < n" "t < k" "k \<le> t + n"
  shows "t mod n = k mod n \<longleftrightarrow> k = t + n"
proof
  assume eq: "t mod n = k mod n"
  have "k mod n = t mod n" using eq by simp
  with assms have "n dvd k - t" by (simp add: mod_eq_dvd_iff_nat)
  moreover have "0 < k - t" using assms by simp
  ultimately have "n \<le> k - t" by (rule dvd_imp_le)
  with assms show "k = t + n" by simp
next
  assume "k = t + n" then show "t mod n = k mod n" by simp
qed

subsection \<open>The newest occurrence in the window\<close>

lemma newest_at_unique: "newest_at n hs f t \<Longrightarrow> newest_at n hs f t' \<Longrightarrow> t = t'"
  unfolding newest_at_def by (metis linorder_neqE_nat)

lemma in_window_iff: "f \<in> set (window n hs) \<longleftrightarrow> (\<exists>t. newest_at n hs f t)"
proof
  assume "f \<in> set (window n hs)"
  then obtain j where j: "j < length hs - (length hs - n)" "drop (length hs - n) hs ! j = f"
    unfolding window_def by (auto simp: in_set_conv_nth)
  define m where "m = length hs - n + j"
  have m: "m < length hs" "hs ! m = f" "length hs \<le> m + n"
    using j unfolding m_def by auto
  then have "f \<in> set hs" by auto
  then obtain ys zs where split: "hs = ys @ f # zs" "f \<notin> set zs"
    using split_list_last by metis
  have le: "m \<le> length ys"
  proof (rule ccontr)
    assume "\<not> m \<le> length ys"
    then have "length ys < m" by simp
    with m split have "hs ! m \<in> set zs"
      by (auto simp: nth_append nth_Cons split: nat.splits)
    with m split show False by simp
  qed
  have "newest_at n hs f (length ys)"
    unfolding newest_at_def
  proof (intro conjI allI impI)
    show "length ys < length hs" using split by simp
    show "length hs \<le> length ys + n" using le m by simp
    show "hs ! length ys = f" using split by simp
    fix t' assume t': "length ys < t' \<and> t' < length hs"
    then have "hs ! t' \<in> set zs" using split
      by (auto simp: nth_append nth_Cons split: nat.splits)
    then show "hs ! t' \<noteq> f" using split by auto
  qed
  then show "\<exists>t. newest_at n hs f t" ..
next
  assume "\<exists>t. newest_at n hs f t"
  then obtain t where t: "t < length hs" "length hs \<le> t + n" "hs ! t = f"
    unfolding newest_at_def by auto
  then have "drop (length hs - n) hs ! (t - (length hs - n)) = f" by simp
  moreover have "t - (length hs - n) < length (drop (length hs - n) hs)" using t by auto
  ultimately show "f \<in> set (window n hs)" unfolding window_def
    by (metis nth_mem)
qed

subsection \<open>One call preserves the invariant\<close>

lemma dv_inv_New: "dv_inv n [] (NewDejaVuDeterministic n)"
  by (simp add: dv_inv_def NewDejaVuDeterministic_def newest_at_def)

lemma WitnessDigest_wf:
  assumes "size_d d = int n" "length (buffer d) = n" "index d = int c" "c < n"
  shows "WitnessDigest f d =
    Inr (lookup d f \<noteq> None,
         d\<lparr>buffer := (buffer d)[c := f],
           lookup := (if prunes d then (lookup d)(buffer d ! c := None) else lookup d)(f \<mapsto> int c),
           index := int (Suc c mod n)\<rparr>)"
proof -
  have "(int c + 1) smod int n = int (Suc c mod n)"
    using assms by (simp add: smod_nonneg zmod_int add.commute)
  then show ?thesis
    using assms by (simp add: WitnessDigest_def in_bounds_def Let_def)
qed

lemma newest_at_snoc_same:
  assumes "0 < n"
  shows "newest_at n (hs @ [f]) f t \<longleftrightarrow> t = length hs"
proof
  assume h: "newest_at n (hs @ [f]) f t"
  show "t = length hs"
  proof (rule ccontr)
    assume "t \<noteq> length hs"
    with h have lt: "t < length hs" by (simp add: newest_at_def)
    from h have "\<forall>t'. t < t' \<and> t' < Suc (length hs) \<longrightarrow> (hs @ [f]) ! t' \<noteq> f"
      by (simp add: newest_at_def)
    then have "t < length hs \<and> length hs < Suc (length hs) \<longrightarrow> (hs @ [f]) ! length hs \<noteq> f"
      by (rule spec)
    with lt show False by simp
  qed
next
  assume "t = length hs"
  with assms show "newest_at n (hs @ [f]) f t" by (auto simp: newest_at_def)
qed

lemma newest_at_snoc_other:
  assumes "g \<noteq> f"
  shows "newest_at n (hs @ [g]) f t \<longleftrightarrow> newest_at n hs f t \<and> length hs \<noteq> t + n"
proof
  assume h: "newest_at n (hs @ [g]) f t"
  then have t: "t < Suc (length hs)" "Suc (length hs) \<le> t + n" "(hs @ [g]) ! t = f"
    and later: "\<And>t'. t < t' \<Longrightarrow> t' < Suc (length hs) \<Longrightarrow> (hs @ [g]) ! t' \<noteq> f"
    by (simp_all add: newest_at_def)
  have "t \<noteq> length hs" using t(3) assms by auto
  with t have lt: "t < length hs" by simp
  have "hs ! t' \<noteq> f" if "t < t'" "t' < length hs" for t'
    using later[of t'] that by (simp add: nth_append)
  with lt t show "newest_at n hs f t \<and> length hs \<noteq> t + n"
    by (simp add: newest_at_def nth_append)
next
  assume h: "newest_at n hs f t \<and> length hs \<noteq> t + n"
  then have t: "t < length hs" "length hs \<le> t + n" "hs ! t = f" "length hs \<noteq> t + n"
    and later: "\<And>t'. t < t' \<Longrightarrow> t' < length hs \<Longrightarrow> hs ! t' \<noteq> f"
    by (simp_all add: newest_at_def)
  have "(hs @ [g]) ! t' \<noteq> f" if "t < t'" "t' < Suc (length hs)" for t'
  proof (cases "t' = length hs")
    case True then show ?thesis using assms by simp
  next
    case False
    with that have "t' < length hs" by simp
    with later[OF that(1)] show ?thesis by (simp add: nth_append)
  qed
  with t show "newest_at n (hs @ [g]) f t"
    by (simp add: newest_at_def nth_append)
qed

lemma lookup_cursor_iff:
  assumes n: "0 < n" and inv: "dv_inv n hs d"
  shows "lookup d g = Some (int (length hs mod n)) \<longleftrightarrow>
         (\<exists>t. newest_at n hs g t \<and> length hs = t + n)"
proof -
  have slot: "t mod n = length hs mod n \<longleftrightarrow> length hs = t + n" if "newest_at n hs g t" for t
    using that n by (intro same_slot_iff) (simp_all add: newest_at_def)
  have look: "lookup d g = Some (int (length hs mod n)) \<longleftrightarrow>
        (\<exists>t. newest_at n hs g t \<and> int (length hs mod n) = int (t mod n))"
    using inv by (simp add: dv_inv_def)
  show ?thesis
  proof
    assume "lookup d g = Some (int (length hs mod n))"
    with look obtain t where t: "newest_at n hs g t" "int (length hs mod n) = int (t mod n)"
      by auto
    from t(2) have "t mod n = length hs mod n" by simp
    with slot[OF t(1)] have "length hs = t + n" by simp
    with t(1) show "\<exists>t. newest_at n hs g t \<and> length hs = t + n" by auto
  next
    assume "\<exists>t. newest_at n hs g t \<and> length hs = t + n"
    then obtain t where t: "newest_at n hs g t" "length hs = t + n" by auto
    with slot[OF t(1)] have "int (length hs mod n) = int (t mod n)" by simp
    with t(1) look show "lookup d g = Some (int (length hs mod n))" by auto
  qed
qed

lemma cursor_slot_holds:
  assumes n: "0 < n" and inv: "dv_inv n hs d"
    and look: "lookup d g = Some (int (length hs mod n))"
  shows "buffer d ! (length hs mod n) = g \<and> n \<le> length hs"
proof -
  from look obtain t where t: "newest_at n hs g t" "length hs = t + n"
    using lookup_cursor_iff[OF n inv, of g] by auto
  then have tt: "t < length hs" "length hs \<le> t + n" "hs ! t = g"
    by (simp_all add: newest_at_def)
  from inv have "\<forall>t<length hs. length hs \<le> t + n \<longrightarrow> buffer d ! (t mod n) = hs ! t"
    by (simp add: dv_inv_def)
  then have "t < length hs \<longrightarrow> length hs \<le> t + n \<longrightarrow> buffer d ! (t mod n) = hs ! t"
    by (rule spec)
  with tt have slot: "buffer d ! (t mod n) = g" by simp
  have e: "length hs mod n = t mod n" by (simp add: t(2))
  have "n \<le> length hs" by (simp add: t(2))
  with slot show ?thesis unfolding e by simp
qed

lemma prunes_iff:
  assumes inv: "dv_inv n hs d"
  shows "prunes d \<longleftrightarrow>
         map_index (lookup d) (buffer d ! (length hs mod n)) = int (length hs mod n)"
  using inv by (simp add: prunes_def maxed_def dv_inv_def)

lemma pruned_lookup_eq:
  assumes n: "0 < n" and inv: "dv_inv n hs d"
  shows "pruned_lookup d g =
         (if lookup d g = Some (int (length hs mod n)) then None else lookup d g)"
proof (cases "lookup d g = Some (int (length hs mod n))")
  case True
  have idx: "nat (index d) = length hs mod n" using inv by (simp add: dv_inv_def)
  from cursor_slot_holds[OF n inv True] have b: "buffer d ! (length hs mod n) = g" by simp
  with True have "prunes d"
    by (simp add: prunes_iff[OF inv] map_index_def)
  with b idx True show ?thesis by (simp add: pruned_lookup_def)
next
  case False
  have idx: "nat (index d) = length hs mod n" using inv by (simp add: dv_inv_def)
  have "pruned_lookup d g = lookup d g"
  proof (cases "prunes d \<and> buffer d ! (length hs mod n) = g")
    case True
    then have "map_index (lookup d) g = int (length hs mod n)"
      using prunes_iff[OF inv] by auto
    with False have "lookup d g = None"
      by (cases "lookup d g") (simp_all add: map_index_def)
    then show ?thesis using idx by (simp add: pruned_lookup_def)
  next
    case False
    then show ?thesis using idx by (auto simp: pruned_lookup_def)
  qed
  with False show ?thesis by simp
qed

lemma WitnessDigest_inv:
  assumes n: "0 < n" and inv: "dv_inv n hs d"
  shows "WitnessDigest f d =
    Inr (lookup d f \<noteq> None,
         d\<lparr>buffer := (buffer d)[length hs mod n := f],
           lookup := (pruned_lookup d)(f \<mapsto> int (length hs mod n)),
           index := int (Suc (length hs) mod n)\<rparr>)"
proof -
  have "size_d d = int n" "length (buffer d) = n" "index d = int (length hs mod n)"
    using inv by (simp_all add: dv_inv_def)
  moreover have "length hs mod n < n" using n by simp
  ultimately show ?thesis
    using WitnessDigest_wf[of d n "length hs mod n" f]
    by (simp add: pruned_lookup_def mod_Suc_eq)
qed

lemma dv_inv_step:
  assumes n: "0 < n" and inv: "dv_inv n hs d"
  shows "dv_inv n (hs @ [f])
           (d\<lparr>buffer := (buffer d)[length hs mod n := f],
              lookup := (pruned_lookup d)(f \<mapsto> int (length hs mod n)),
              index := int (Suc (length hs) mod n)\<rparr>)"
proof -
  let ?k = "length hs"
  let ?c = "?k mod n"
  have sz: "size_d d = int n" and len: "length (buffer d) = n"
    and buf: "\<And>t. t < ?k \<Longrightarrow> ?k \<le> t + n \<Longrightarrow> buffer d ! (t mod n) = hs ! t"
    and unw: "\<And>j. j < n \<Longrightarrow> ?k \<le> j \<Longrightarrow> buffer d ! j = zero_digest"
    and look: "\<And>g i. lookup d g = Some i \<longleftrightarrow> (\<exists>t. newest_at n hs g t \<and> i = int (t mod n))"
    using inv by (simp_all add: dv_inv_def)
  have c: "?c < n" using n by simp
  have buf': "(buffer d)[?c := f] ! (t mod n) = (hs @ [f]) ! t"
    if "t < Suc ?k" "Suc ?k \<le> t + n" for t
  proof (cases "t = ?k")
    case True
    then show ?thesis using c len by simp
  next
    case False
    with that have t: "t < ?k" "?k \<le> t + n" "?k \<noteq> t + n" by simp_all
    then have "t mod n \<noteq> ?c" using same_slot_iff[OF n t(1) t(2)] by simp
    then show ?thesis using t buf[OF t(1) t(2)] by (simp add: nth_append)
  qed
  have unw': "(buffer d)[?c := f] ! j = zero_digest" if "j < n" "Suc ?k \<le> j" for j
  proof -
    from that have "?k < n" by simp
    then have "?c = ?k" by simp
    with that unw[of j] show ?thesis by simp
  qed
  have look': "((pruned_lookup d)(f \<mapsto> int ?c)) g = Some i \<longleftrightarrow>
       (\<exists>t. newest_at n (hs @ [f]) g t \<and> i = int (t mod n))" for g i
  proof (cases "g = f")
    case True
    then show ?thesis using newest_at_snoc_same[OF n, of hs f] by auto
  next
    case False
    then have f: "f \<noteq> g" by simp
    show ?thesis
    proof (cases "lookup d g = Some (int ?c)")
      case True
      then obtain t0 where t0: "newest_at n hs g t0" "?k = t0 + n"
        using lookup_cursor_iff[OF n inv, of g] by auto
      have "\<not> (\<exists>t. newest_at n (hs @ [f]) g t \<and> i = int (t mod n))"
      proof
        assume "\<exists>t. newest_at n (hs @ [f]) g t \<and> i = int (t mod n)"
        then obtain t where "newest_at n hs g t" "?k \<noteq> t + n"
          using newest_at_snoc_other[OF f, of n hs] by auto
        with t0 show False using newest_at_unique by blast
      qed
      then show ?thesis using False True pruned_lookup_eq[OF n inv, of g] by simp
    next
      case nc: False
      have "(\<exists>t. newest_at n (hs @ [f]) g t \<and> i = int (t mod n)) \<longleftrightarrow>
            (\<exists>t. newest_at n hs g t \<and> i = int (t mod n))"
      proof
        assume "\<exists>t. newest_at n (hs @ [f]) g t \<and> i = int (t mod n)"
        then show "\<exists>t. newest_at n hs g t \<and> i = int (t mod n)"
          using newest_at_snoc_other[OF f, of n hs] by auto
      next
        assume "\<exists>t. newest_at n hs g t \<and> i = int (t mod n)"
        then obtain t where t: "newest_at n hs g t" "i = int (t mod n)" by auto
        have "?k \<noteq> t + n"
        proof
          assume "?k = t + n"
          with t(1) have "lookup d g = Some (int ?c)"
            using lookup_cursor_iff[OF n inv, of g] by auto
          with nc show False by simp
        qed
        with t show "\<exists>t. newest_at n (hs @ [f]) g t \<and> i = int (t mod n)"
          using newest_at_snoc_other[OF f, of n hs] by auto
      qed
      then show ?thesis using False nc pruned_lookup_eq[OF n inv, of g] look[of g i] by simp
    qed
  qed
  show ?thesis
    unfolding dv_inv_def
  proof (intro conjI allI impI)
    show "size_d (d\<lparr>buffer := (buffer d)[?c := f],
              lookup := (pruned_lookup d)(f \<mapsto> int ?c),
              index := int (Suc ?k mod n)\<rparr>) = int n" using sz by simp
  qed (use len buf' unw' look' in simp_all)
qed

subsection \<open>Runs of calls\<close>

lemma familiar_iff_window:
  assumes "dv_inv n hs d"
  shows "lookup d f \<noteq> None \<longleftrightarrow> f \<in> set (window n hs)"
proof -
  have "lookup d f \<noteq> None \<longleftrightarrow> (\<exists>i. lookup d f = Some i)" by auto
  also have "\<dots> \<longleftrightarrow> (\<exists>t. newest_at n hs f t)"
    using assms by (auto simp: dv_inv_def)
  finally show ?thesis by (simp add: in_window_iff)
qed

lemma WitnessDigest_window:
  assumes n: "0 < n" and inv: "dv_inv n hs d"
  shows "\<exists>d'. WitnessDigest f d = Inr (f \<in> set (window n hs), d') \<and>
              dv_inv n (hs @ [f]) d' \<and>
              buffer d' = (buffer d)[nat (index d) := f] \<and>
              lookup d' = (pruned_lookup d)(f \<mapsto> index d) \<and>
              index d' = (index d + 1) mod int n \<and>
              size_d d' = size_d d"
proof -
  have idx: "index d = int (length hs mod n)" using inv by (simp add: dv_inv_def)
  have "int (Suc (length hs) mod n) = (int (length hs mod n) + 1) mod int n"
    by (simp add: zmod_int add.commute mod_add_right_eq)
  then show ?thesis
    using WitnessDigest_inv[OF n inv, of f] dv_inv_step[OF n inv, of f]
      familiar_iff_window[OF inv, of f] idx
    by simp
qed

lemma WitnessDigest_seq_window:
  assumes n: "0 < n"
  shows "dv_inv n hs d \<Longrightarrow>
         \<exists>d'. WitnessDigest_seq fs d = Inr (familiar_seq n hs fs, d') \<and> dv_inv n (hs @ fs) d'"
proof (induction fs arbitrary: hs d)
  case Nil
  then show ?case by simp
next
  case (Cons f fs)
  from WitnessDigest_window[OF n Cons.prems, of f]
  obtain d1 where d1: "WitnessDigest f d = Inr (f \<in> set (window n hs), d1)"
    "dv_inv n (hs @ [f]) d1" by blast
  from Cons.IH[OF d1(2)]
  obtain d2 where d2: "WitnessDigest_seq fs d1 = Inr (familiar_seq n (hs @ [f]) fs, d2)"
    "dv_inv n ((hs @ [f]) @ fs) d2" by blast
  then show ?case using d1 by simp
qed

lemma run_fresh:
  assumes n: "0 < n"
  shows "\<exists>d. WitnessDigest_seq hs (NewDejaVuDeterministic n) = Inr (familiar_seq n [] hs, d) \<and>
             dv_inv n hs d"
  using WitnessDigest_seq_window[OF n dv_inv_New, of hs] by simp

lemma state_after_inv:
  assumes n: "0 < n"
  shows "\<exists>d. state_after n hs = Some d \<and> dv_inv n hs d"
  using run_fresh[OF n, of hs] by (auto simp: state_after_def)

lemma witness_results_eq:
  assumes n: "0 < n"
  shows "witness_results n fs = Inr (familiar_seq n [] fs)"
  using run_fresh[OF n, of fs] by (auto simp: witness_results_def)

lemma WitnessDigest_seq_append:
  "WitnessDigest_seq (xs @ ys) d =
     (case WitnessDigest_seq xs d of
        Inl e \<Rightarrow> Inl e
      | Inr (rs, d') \<Rightarrow>
          (case WitnessDigest_seq ys d' of
             Inl e \<Rightarrow> Inl e
           | Inr (rs', d'') \<Rightarrow> Inr (rs @ rs', d'')))"
  by (induction xs arbitrary: d) (auto split: sum.splits)

lemma state_after_snoc:
  assumes "state_after n hs = Some d" "WitnessDigest f d = Inr (r, d')"
  shows "state_after n (hs @ [f]) = Some d'"
  using assms by (auto simp: state_after_def WitnessDigest_seq_append split: sum.splits)

subsection \<open>The buffer as a function of the calls\<close>

lemma buffer_filling:
  assumes inv: "dv_inv n hs d" and k: "length hs < n"
  shows "buffer d = hs @ replicate (n - length hs) zero_digest"
proof (rule nth_equalityI)
  show "length (buffer d) = length (hs @ replicate (n - length hs) zero_digest)"
    using inv k by (simp add: dv_inv_def)
next
  fix i assume "i < length (buffer d)"
  then have i: "i < n" using inv by (simp add: dv_inv_def)
  show "buffer d ! i = (hs @ replicate (n - length hs) zero_digest) ! i"
  proof (cases "i < length hs")
    case True
    from inv have "\<forall>t<length hs. length hs \<le> t + n \<longrightarrow> buffer d ! (t mod n) = hs ! t"
      by (simp add: dv_inv_def)
    then have "i < length hs \<longrightarrow> length hs \<le> i + n \<longrightarrow> buffer d ! (i mod n) = hs ! i"
      by (rule spec)
    with True k i show ?thesis by (simp add: nth_append)
  next
    case False
    from inv have "\<forall>j<n. length hs \<le> j \<longrightarrow> buffer d ! j = zero_digest"
      by (simp add: dv_inv_def)
    then have "i < n \<longrightarrow> length hs \<le> i \<longrightarrow> buffer d ! i = zero_digest" by (rule spec)
    with False i show ?thesis by (simp add: nth_append)
  qed
qed

lemma buffer_wrapped:
  assumes n: "0 < n" and inv: "dv_inv n hs d" and k: "n \<le> length hs"
  shows "rotate (length hs mod n) (buffer d) = window n hs"
proof (rule nth_equalityI)
  show "length (rotate (length hs mod n) (buffer d)) = length (window n hs)"
    using inv k by (simp add: dv_inv_def window_def)
next
  fix i assume "i < length (rotate (length hs mod n) (buffer d))"
  then have i: "i < n" using inv by (simp add: dv_inv_def)
  have len: "length (buffer d) = n" using inv by (simp add: dv_inv_def)
  define t where "t = length hs - n + i"
  have t: "t < length hs" "length hs \<le> t + n" using i k by (simp_all add: t_def)
  have "t + n = length hs + i" using k by (simp add: t_def)
  then have "(t + n) mod n = (length hs + i) mod n" by simp
  then have slot: "t mod n = (length hs mod n + i) mod n" by (simp add: mod_add_left_eq)
  from inv have "\<forall>t<length hs. length hs \<le> t + n \<longrightarrow> buffer d ! (t mod n) = hs ! t"
    by (simp add: dv_inv_def)
  then have "t < length hs \<longrightarrow> length hs \<le> t + n \<longrightarrow> buffer d ! (t mod n) = hs ! t"
    by (rule spec)
  with t have "buffer d ! (t mod n) = hs ! t" by simp
  moreover have "rotate (length hs mod n) (buffer d) ! i = buffer d ! ((length hs mod n + i) mod n)"
    using i len by (simp add: nth_rotate)
  moreover have "window n hs ! i = hs ! t" using i k by (simp add: window_def t_def)
  ultimately show "rotate (length hs mod n) (buffer d) ! i = window n hs ! i"
    using slot by simp
qed

subsection \<open>Entries of the lookup map point at their digest\<close>

lemma dv_inv_index_sound:
  assumes n: "0 < n" and inv: "dv_inv n hs d"
  shows "index_sound d"
  unfolding index_sound_def
proof (intro allI impI)
  fix f i assume "lookup d f = Some i"
  with inv obtain t where t: "newest_at n hs f t" "i = int (t mod n)"
    by (auto simp: dv_inv_def)
  then have tt: "t < length hs" "length hs \<le> t + n" "hs ! t = f"
    by (simp_all add: newest_at_def)
  from inv have "\<forall>t<length hs. length hs \<le> t + n \<longrightarrow> buffer d ! (t mod n) = hs ! t"
    by (simp add: dv_inv_def)
  then have "t < length hs \<longrightarrow> length hs \<le> t + n \<longrightarrow> buffer d ! (t mod n) = hs ! t"
    by (rule spec)
  with tt have "buffer d ! (t mod n) = f" by simp
  moreover have "length (buffer d) = n" using inv by (simp add: dv_inv_def)
  moreover have "t mod n < n" using n by simp
  ultimately show "in_bounds i (buffer d) \<and> buffer d ! nat i = f"
    using t(2) by (simp add: in_bounds_def)
qed

lemma WitnessDigest_preserves_index_sound:
  assumes mx: "maxed d" and snd: "index_sound d" and w: "WitnessDigest f d = Inr (r, d')"
  shows "index_sound d'"
proof -
  from w have ib: "in_bounds (index d) (buffer d)" and nz: "size_d d \<noteq> 0"
    by (auto simp: WitnessDigest_def Let_def split: if_splits)
  let ?c = "nat (index d)"
  have c: "?c < length (buffer d)" "int ?c = index d" using ib by (auto simp: in_bounds_def)
  from w ib nz have buf: "buffer d' = (buffer d)[?c := f]"
    and look: "lookup d' = (pruned_lookup d)(f \<mapsto> index d)"
    by (auto simp: WitnessDigest_def Let_def pruned_lookup_def)
  show ?thesis
    unfolding index_sound_def
  proof (intro allI impI)
    fix g i assume gi: "lookup d' g = Some i"
    show "in_bounds i (buffer d') \<and> buffer d' ! nat i = g"
    proof (cases "g = f")
      case True
      with gi look have "i = index d" by simp
      with True c(1) buf ib show ?thesis by (simp add: in_bounds_def)
    next
      case False
      with gi look have pl: "pruned_lookup d g = Some i" by simp
      then have old: "lookup d g = Some i"
        by (auto simp: pruned_lookup_def split: if_splits)
      with snd have s: "in_bounds i (buffer d)" "buffer d ! nat i = g"
        by (auto simp: index_sound_def)
      have "i \<noteq> index d"
      proof
        assume e: "i = index d"
        with s have "buffer d ! ?c = g" by simp
        with old e mx have "prunes d" by (simp add: prunes_def map_index_def)
        with \<open>buffer d ! ?c = g\<close> have "pruned_lookup d g = None" by (simp add: pruned_lookup_def)
        with pl show False by simp
      qed
      then have "nat i \<noteq> ?c" using s(1) ib by (auto simp: in_bounds_def)
      with s buf show ?thesis by (simp add: in_bounds_def)
    qed
  qed
qed

subsection \<open>Answers of particular runs\<close>


lemma window_suffix: "length w = n \<Longrightarrow> window n (pre @ w) = w"
  by (simp add: window_def)

lemma set_window_subset: "set (window n hs) \<subseteq> set hs"
  by (simp add: window_def set_drop_subset)

lemma familiar_seq_append:
  "familiar_seq n hs (xs @ ys) = familiar_seq n hs xs @ familiar_seq n (hs @ xs) ys"
  by (induction xs arbitrary: hs) simp_all

lemma familiar_seq_unseen:
  "distinct xs \<Longrightarrow> set hs \<inter> set xs = {} \<Longrightarrow>
   familiar_seq n hs xs = replicate (length xs) False"
proof (induction xs arbitrary: hs)
  case Nil
  then show ?case by simp
next
  case (Cons x xs)
  have "x \<notin> set (window n hs)" using Cons.prems set_window_subset[of n hs] by auto
  moreover have "familiar_seq n (hs @ [x]) xs = replicate (length xs) False"
    using Cons.prems by (intro Cons.IH) auto
  ultimately show ?case by simp
qed

lemma familiar_seq_rewitness:
  "length (ys @ xs) = n \<Longrightarrow>
   familiar_seq n (pre @ ys @ xs) ys = replicate (length ys) True"
proof (induction ys arbitrary: pre xs)
  case Nil
  then show ?case by simp
next
  case (Cons y ys)
  have "window n (pre @ (y # ys) @ xs) = (y # ys) @ xs"
    using Cons.prems by (intro window_suffix) simp
  then have "y \<in> set (window n (pre @ (y # ys) @ xs))" by simp
  moreover have "familiar_seq n ((pre @ [y]) @ ys @ (xs @ [y])) ys = replicate (length ys) True"
    using Cons.prems by (intro Cons.IH) simp
  ultimately show ?case by simp
qed

lemma familiar_seq_cascade:
  "length (ys @ post) = n \<Longrightarrow> distinct (x # ys @ post) \<Longrightarrow>
   familiar_seq n (pre @ [x] @ ys @ post) (x # ys) = replicate (Suc (length ys)) False"
proof (induction ys arbitrary: pre x post)
  case Nil
  have "window n (pre @ [x] @ [] @ post) = post"
    using Nil.prems window_suffix[of post n "pre @ [x]"] by simp
  with Nil.prems show ?case by simp
next
  case (Cons y ys)
  have "window n (pre @ [x] @ (y # ys) @ post) = (y # ys) @ post"
    using Cons.prems window_suffix[of "(y # ys) @ post" n "pre @ [x]"] by simp
  with Cons.prems have x: "x \<notin> set (window n (pre @ [x] @ (y # ys) @ post))" by auto
  have "familiar_seq n ((pre @ [x]) @ [y] @ ys @ (post @ [x])) (y # ys) =
        replicate (Suc (length ys)) False"
    using Cons.prems by (intro Cons.IH) auto
  with x show ?case by simp
qed

subsection \<open>The initial fill\<close>

text \<open>
  \<^verbatim>\<open>maxed\<close> holds in every state of a constructed instance, full or not. While fewer
  than \<open>n\<close> calls were made, the condition of line 50 holds at the first call only,
  and lines 50 to 52 leave the lookup map as it is.
\<close>

lemma maxed_always:
  assumes "0 < n" "state_after n hs = Some d"
  shows "maxed d"
  using state_after_inv[OF assms(1), of hs] assms(2) by (auto simp: maxed_def dv_inv_def)

lemma initial_fill_step:
  assumes n: "0 < n" and k: "length hs < n"
  shows "\<exists>d r d'. state_after n hs = Some d \<and> WitnessDigest f d = Inr (r, d') \<and>
           prunes d = (hs = []) \<and>
           pruned_lookup d = lookup d \<and>
           lookup d' = (lookup d)(f \<mapsto> index d)"
proof -
  from state_after_inv[OF n, of hs]
  obtain d where d: "state_after n hs = Some d" "dv_inv n hs d" by blast
  from WitnessDigest_window[OF n d(2), of f]
  obtain d' where d': "WitnessDigest f d = Inr (f \<in> set (window n hs), d')"
    "lookup d' = (pruned_lookup d)(f \<mapsto> index d)" by blast
  have c: "length hs mod n = length hs" using k by simp
  have slot: "buffer d ! length hs = zero_digest"
    using buffer_filling[OF d(2) k] k by (simp add: nth_append)
  have nothere: "lookup d g \<noteq> Some (int (length hs mod n))" for g
    using cursor_slot_holds[OF n d(2), of g] k by auto
  have pl: "pruned_lookup d = lookup d"
  proof
    fix g show "pruned_lookup d g = lookup d g"
      using pruned_lookup_eq[OF n d(2), of g] nothere[of g] by simp
  qed
  have "prunes d = (hs = [])"
  proof (cases "lookup d zero_digest")
    case None
    then show ?thesis using prunes_iff[OF d(2)] c slot by (simp add: map_index_def)
  next
    case (Some j)
    with nothere[of zero_digest] have "j \<noteq> int (length hs)" using c by simp
    moreover from Some have "zero_digest \<in> set (window n hs)"
      using familiar_iff_window[OF d(2), of zero_digest] by simp
    then have "hs \<noteq> []" by (auto simp: window_def)
    ultimately show ?thesis using prunes_iff[OF d(2)] c slot Some by (simp add: map_index_def)
  qed
  with d(1) d' pl show ?thesis by auto
qed

text \<open>
  First sight: pairwise distinct digests, witnessed in any order by a fresh instance of
  a capacity \<open>n \<ge> 1\<close>, are all answered with false.
\<close>

lemma first_sight:
  assumes "0 < n" "distinct fs"
  shows "witness_results n fs = Inr (replicate (length fs) False)"
  using familiar_seq_unseen[of fs "[]" n] assms(2) witness_results_eq[OF assms(1), of fs]
  by simp

text \<open>The definitions a concrete run unfolds.\<close>

lemmas run_simps = state_after_def witness_results_def WitnessDigest_def
  NewDejaVuDeterministic_def in_bounds_def prunes_def maxed_def map_index_def zero_digest_def
  signed_modulo_int_def eval_nat_numeral

section \<open>The contract of \<^verbatim>\<open>WitnessDigest\<close>\<close>

text \<open>
  Claim C1. On an instance built with a capacity \<open>n \<ge> 1\<close>, after any calls \<open>hs\<close>,
  the call \<open>WitnessDigest f\<close> returns, and it returns true exactly when \<open>f\<close> is in
  the retention window before the call. The window is what the lookup map knows and
  what the written slots of the ring buffer hold: while the buffer fills, the buffer is
  the calls so far followed by zero slots, and once it has wrapped, the buffer read
  from the cursor on is the window, oldest first. After the call, whatever it returned,
  the slot the cursor pointed at holds \<open>f\<close>, the lookup entry of \<open>f\<close> is that slot,
  and \<open>f\<close> is the newest digest of the window.
\<close>

theorem WitnessDigest_contract:
  assumes "0 < n"
  shows "\<exists>d r d'. state_after n hs = Some d \<and>
           WitnessDigest f d = Inr (r, d') \<and>
           r = (f \<in> set (window n hs)) \<and>
           dom (lookup d) = set (window n hs) \<and>
           (if length hs < n then buffer d = hs @ replicate (n - length hs) zero_digest
            else rotate (nat (index d)) (buffer d) = window n hs) \<and>
           state_after n (hs @ [f]) = Some d' \<and>
           in_bounds (index d) (buffer d') \<and>
           buffer d' ! nat (index d) = f \<and>
           lookup d' f = Some (index d) \<and>
           last (window n (hs @ [f])) = f"
proof -
  from state_after_inv[OF assms, of hs]
  obtain d where d: "state_after n hs = Some d" "dv_inv n hs d" by blast
  from WitnessDigest_window[OF assms d(2), of f]
  obtain d' where d': "WitnessDigest f d = Inr (f \<in> set (window n hs), d')"
    "buffer d' = (buffer d)[nat (index d) := f]"
    "lookup d' = (pruned_lookup d)(f \<mapsto> index d)" by blast
  have idx: "index d = int (length hs mod n)" and len: "length (buffer d) = n"
    using d(2) by (simp_all add: dv_inv_def)
  have c: "length hs mod n < n" using assms by simp
  have dom: "dom (lookup d) = set (window n hs)"
    using familiar_iff_window[OF d(2)] by (auto simp: dom_def)
  have buf: "if length hs < n then buffer d = hs @ replicate (n - length hs) zero_digest
            else rotate (nat (index d)) (buffer d) = window n hs"
    using buffer_filling[OF d(2)] buffer_wrapped[OF assms d(2)] idx by simp
  have after: "state_after n (hs @ [f]) = Some d'"
    using state_after_snoc[OF d(1) d'(1)] .
  have ib: "in_bounds (index d) (buffer d')" using idx len c d'(2) by (simp add: in_bounds_def)
  have slot: "buffer d' ! nat (index d) = f" using idx len c d'(2) by simp
  have look: "lookup d' f = Some (index d)" using d'(3) by simp
  have newest: "last (window n (hs @ [f])) = f" using assms by (simp add: window_def)
  show ?thesis
    using d(1) d'(1) dom buf after ib slot look newest by blast
qed

theorem WitnessDigest_contract_witness:
  "\<exists>d r d'. state_after 2 [filled_digest 1, filled_digest 2, filled_digest 3] = Some d \<and>
     WitnessDigest (filled_digest 2) d = Inr (r, d') \<and>
     r = True \<and>
     dom (lookup d) = {filled_digest 2, filled_digest 3} \<and>
     rotate (nat (index d)) (buffer d) = [filled_digest 2, filled_digest 3] \<and>
     state_after 2 [filled_digest 1, filled_digest 2, filled_digest 3, filled_digest 2] = Some d' \<and>
     in_bounds (index d) (buffer d') \<and>
     buffer d' ! nat (index d) = filled_digest 2 \<and>
     lookup d' (filled_digest 2) = Some (index d)"
  using WitnessDigest_contract [of 2 "[filled_digest 1, filled_digest 2, filled_digest 3]"
      "filled_digest 2"]
  by (simp add: window_def)

section \<open>FIFO eviction\<close>

text \<open>
  Claim C2. Let \<open>D1 # Ds\<close> be \<open>n + 1\<close> pairwise distinct digests, witnessed in
  this order by a fresh instance of capacity \<open>n \<ge> 1\<close>; all these calls answer false.
  From the state then reached, a call for \<open>D1\<close> answers false: \<open>D1\<close> was evicted.
  From the same state, the calls for \<open>Ds\<close> in their order each answer true, and a
  call for \<open>D1\<close> after them still answers false. The last conjunct records that
  both checks are anchored to that state: every call records its digest, so a call for
  \<open>D1\<close> made before the calls for \<open>Ds\<close> overwrites the slot of the oldest digest
  of \<open>Ds\<close>, and each call for \<open>Ds\<close> then finds its digest evicted by the call
  before it.
\<close>

theorem fifo_eviction:
  assumes n: "0 < n" and dist: "distinct (D1 # Ds)" and len: "length Ds = n"
  shows "witness_results n ((D1 # Ds) @ [D1]) = Inr (replicate (n + 1) False @ [False]) \<and>
         witness_results n ((D1 # Ds) @ Ds) = Inr (replicate (n + 1) False @ replicate n True) \<and>
         witness_results n ((D1 # Ds) @ Ds @ [D1]) =
           Inr (replicate (n + 1) False @ replicate n True @ [False]) \<and>
         witness_results n ((D1 # Ds) @ [D1] @ Ds) =
           Inr (replicate (n + 1) False @ [False] @ replicate n False)"
proof -
  have first: "familiar_seq n [] (D1 # Ds) = replicate (n + 1) False"
    using familiar_seq_unseen[of "D1 # Ds" "[]" n] dist len by simp
  have w1: "window n (D1 # Ds) = Ds"
    using window_suffix[of Ds n "[D1]"] len by simp
  have w2: "window n ((D1 # Ds) @ Ds) = Ds"
    using window_suffix[of Ds n "D1 # Ds"] len by simp
  have again: "familiar_seq n (D1 # Ds) Ds = replicate n True"
    using familiar_seq_rewitness[of Ds "[]" n "[D1]"] len by simp
  have cascade: "familiar_seq n (D1 # Ds) (D1 # Ds) = replicate (Suc n) False"
    using familiar_seq_cascade[of Ds "[]" n D1 "[]"] dist len by simp
  have notin: "D1 \<notin> set Ds" using dist by simp
  have a: "familiar_seq n [] ((D1 # Ds) @ [D1]) = replicate (n + 1) False @ [False]"
    unfolding familiar_seq_append using first w1 notin by simp
  have b: "familiar_seq n [] ((D1 # Ds) @ Ds) = replicate (n + 1) False @ replicate n True"
    unfolding familiar_seq_append using first again by simp
  have c: "familiar_seq n [] ((D1 # Ds) @ Ds @ [D1]) =
           replicate (n + 1) False @ replicate n True @ [False]"
    unfolding familiar_seq_append using first again w2 notin by simp
  have "familiar_seq n [] ((D1 # Ds) @ (D1 # Ds)) = replicate (n + 1) False @ replicate (Suc n) False"
    unfolding familiar_seq_append using first cascade by simp
  then have e: "familiar_seq n [] ((D1 # Ds) @ [D1] @ Ds) =
           replicate (n + 1) False @ [False] @ replicate n False"
    by simp
  show ?thesis
    unfolding witness_results_eq[OF n] using a b c e by simp
qed

text \<open>
  The theorem at capacity 2 with three digests.
\<close>

theorem fifo_eviction_witness:
  "witness_results 2 [filled_digest 1, filled_digest 2, filled_digest 3, filled_digest 1] =
     Inr [False, False, False, False] \<and>
   witness_results 2 [filled_digest 1, filled_digest 2, filled_digest 3,
     filled_digest 2, filled_digest 3] = Inr [False, False, False, True, True] \<and>
   witness_results 2 [filled_digest 1, filled_digest 2, filled_digest 3,
     filled_digest 2, filled_digest 3, filled_digest 1] =
     Inr [False, False, False, True, True, False] \<and>
   witness_results 2 [filled_digest 1, filled_digest 2, filled_digest 3,
     filled_digest 1, filled_digest 2, filled_digest 3] =
     Inr [False, False, False, False, False, False]"
proof -
  have r: "replicate 3 False = [False, False, False]"
    "replicate 2 False = [False, False]" "replicate 2 True = [True, True]"
    by (simp_all add: numeral_3_eq_3 numeral_2_eq_2)
  have n: "(0::nat) < 2" by simp
  have d: "distinct (filled_digest 1 # [filled_digest 2, filled_digest 3])" by simp
  have l: "length [filled_digest 2, filled_digest 3] = 2" by simp
  from fifo_eviction [OF n d l] show ?thesis
    by (simp add: r)
qed

section \<open>Capacity zero\<close>

text \<open>
  Claim C3, as amended. \<^verbatim>\<open>NewDejaVuDeterministic(0)\<close> does not fail: it returns an
  instance with an empty ring buffer and size 0. Every first call on that instance,
  through \<^verbatim>\<open>WitnessDigest\<close> or through \<^verbatim>\<open>Witness\<close>, fails at run time with an index
  out of range, at line 50, before the remainder of line 57 is reached.
\<close>

theorem capacity_zero_fails_at_first_call:
  "buffer (NewDejaVuDeterministic 0) = [] \<and>
   size_d (NewDejaVuDeterministic 0) = 0 \<and>
   WitnessDigest f (NewDejaVuDeterministic 0) = Inl IndexOutOfRange \<and>
   Witness Sum256 b (NewDejaVuDeterministic 0) = Inl IndexOutOfRange"
  by (simp add: Witness_def WitnessDigest_def NewDejaVuDeterministic_def in_bounds_def)

theorem capacity_zero_fails_at_first_call_witness:
  "buffer (NewDejaVuDeterministic 0) = [] \<and>
   size_d (NewDejaVuDeterministic 0) = 0 \<and>
   WitnessDigest (filled_digest 7) (NewDejaVuDeterministic 0) = Inl IndexOutOfRange \<and>
   Witness (\<lambda>bs. zero_digest) [1, 2, 3] (NewDejaVuDeterministic 0) = Inl IndexOutOfRange"
  using capacity_zero_fails_at_first_call [of "filled_digest 7" "\<lambda>bs. zero_digest" "[1, 2, 3]"]
  by simp

text \<open>
  Claim C3 as stated fails: construction with capacity 0 yields an instance, and the
  failure is left to the first call.
\<close>

theorem capacity_zero_counterexample:
  "NewDejaVuDeterministic 0 = \<lparr>buffer = [], size_d = 0, index = 0, lookup = Map.empty\<rparr> \<and>
   WitnessDigest zero_digest (NewDejaVuDeterministic 0) = Inl IndexOutOfRange"
  by (simp add: WitnessDigest_def NewDejaVuDeterministic_def in_bounds_def)

section \<open>The two entry points\<close>

text \<open>
  Claim C4. For every byte sequence and every state, \<^verbatim>\<open>Witness\<close> returns the same
  answer and the same state as \<^verbatim>\<open>WitnessDigest\<close> on the digest of the bytes (or fails
  with the same error), and so do all sequences of calls.
\<close>

theorem Witness_is_WitnessDigest:
  "Witness Sum256 b d = WitnessDigest (Sum256 b) d \<and>
   Witness_seq Sum256 bs d = WitnessDigest_seq (map Sum256 bs) d"
proof
  show "Witness Sum256 b d = WitnessDigest (Sum256 b) d" by (simp add: Witness_def)
  show "Witness_seq Sum256 bs d = WitnessDigest_seq (map Sum256 bs) d"
    by (induction bs arbitrary: d) (simp_all add: Witness_def split: sum.splits)
qed

theorem Witness_is_WitnessDigest_witness:
  "Witness (\<lambda>bs. filled_digest (of_nat (length bs))) [1, 2 :: byte] (NewDejaVuDeterministic 2) =
     WitnessDigest ((\<lambda>bs. filled_digest (of_nat (length bs))) [1, 2 :: byte])
       (NewDejaVuDeterministic 2) \<and>
   Witness_seq (\<lambda>bs. filled_digest (of_nat (length bs))) [[1, 2], [3], [4, 5 :: byte]]
       (NewDejaVuDeterministic 2) =
     WitnessDigest_seq (map (\<lambda>bs. filled_digest (of_nat (length bs))) [[1, 2], [3], [4, 5 :: byte]])
       (NewDejaVuDeterministic 2)"
  by (fact Witness_is_WitnessDigest [of "\<lambda>bs. filled_digest (of_nat (length bs))" "[1, 2 :: byte]"
      "NewDejaVuDeterministic 2" "[[1, 2], [3], [4, 5 :: byte]]"])

section \<open>Soundness of the lookup map\<close>

text \<open>
  Claim C5. In the state an instance of capacity \<open>n \<ge> 1\<close> reaches after any calls,
  every entry \<open>f \<mapsto> i\<close> of the lookup map points at a slot of the buffer that holds
  \<open>f\<close>. Each call preserves this, from every state whose buffer has \<^verbatim>\<open>size\<close> slots
  (as every constructed instance has): the pruning of lines 50 to 52 is what keeps an
  entry from pointing at the overwritten slot.
\<close>

theorem index_sound_invariant:
  assumes "0 < n"
  shows "(\<exists>d. state_after n hs = Some d \<and> maxed d \<and> index_sound d) \<and>
         (\<forall>d f r d'. maxed d \<and> index_sound d \<and> WitnessDigest f d = Inr (r, d') \<longrightarrow>
                      maxed d' \<and> index_sound d')"
proof
  from state_after_inv[OF assms, of hs]
  obtain d where d: "state_after n hs = Some d" "dv_inv n hs d" by blast
  have "maxed d" using d(2) by (simp add: maxed_def dv_inv_def)
  with d dv_inv_index_sound[OF assms d(2)]
  show "\<exists>d. state_after n hs = Some d \<and> maxed d \<and> index_sound d" by blast
next
  show "\<forall>d f r d'. maxed d \<and> index_sound d \<and> WitnessDigest f d = Inr (r, d') \<longrightarrow>
                      maxed d' \<and> index_sound d'"
  proof (intro allI impI, elim conjE)
    fix d f r d'
    assume mx: "maxed d" and snd: "index_sound d" and w: "WitnessDigest f d = Inr (r, d')"
    from w have "length (buffer d') = length (buffer d)" "size_d d' = size_d d"
      by (auto simp: WitnessDigest_def Let_def split: if_splits)
    with mx have "maxed d'" by (simp add: maxed_def)
    with WitnessDigest_preserves_index_sound[OF mx snd w]
    show "maxed d' \<and> index_sound d'" by simp
  qed
qed

theorem index_sound_invariant_witness:
  "(\<exists>d. state_after 2 [filled_digest 1, filled_digest 2, filled_digest 1] = Some d \<and>
        maxed d \<and> index_sound d) \<and>
   (\<exists>r d'. WitnessDigest (filled_digest 3) (NewDejaVuDeterministic 2) = Inr (r, d') \<and>
        maxed d' \<and> index_sound d')"
proof -
  have pos: "(0::nat) < 2" by simp
  note inv = index_sound_invariant [OF pos, of "[filled_digest 1, filled_digest 2, filled_digest 1]"]
  have mx: "maxed (NewDejaVuDeterministic 2)"
    by (simp add: run_simps)
  have snd: "index_sound (NewDejaVuDeterministic 2)"
    by (simp add: index_sound_def NewDejaVuDeterministic_def)
  have "\<exists>d'. WitnessDigest (filled_digest 3) (NewDejaVuDeterministic 2) = Inr (False, d')"
    by (simp add: run_simps)
  then obtain r d' where
    w: "WitnessDigest (filled_digest 3) (NewDejaVuDeterministic 2) = Inr (r, d')"
    by blast
  from inv have step: "\<forall>d f r d'. maxed d \<and> index_sound d \<and> WitnessDigest f d = Inr (r, d') \<longrightarrow>
      maxed d' \<and> index_sound d'"
    by (rule conjunct2)
  from step mx snd w have "maxed d' \<and> index_sound d'" by blast
  with w have "\<exists>r d'. WitnessDigest (filled_digest 3) (NewDejaVuDeterministic 2) = Inr (r, d') \<and>
        maxed d' \<and> index_sound d'"
    by blast
  with inv show ?thesis by blast
qed

section \<open>Re-witnessing before the buffer wraps\<close>




section \<open>The pruning branch during the initial fill\<close>

text \<open>
  Claim C7 says that the branch of lines 50 to 52 does not fire while fewer than
  capacity calls were made. On the code it fires at the first call of every instance:
  \<^verbatim>\<open>maxed\<close> holds from construction on, the slot under the cursor holds the zero
  digest, and the map read of the absent zero digest gives 0, the cursor. Here at
  capacity 2, before any call. Line 51 then deletes a key that is absent, and the
  lemma \<open>initial_fill_step\<close> shows that this is the only firing during the fill and
  that no entry is removed.
\<close>

theorem first_call_runs_pruning_branch:
  "maxed (NewDejaVuDeterministic 2) \<and>
   buffer (NewDejaVuDeterministic 2) ! nat (index (NewDejaVuDeterministic 2)) = zero_digest \<and>
   map_index (lookup (NewDejaVuDeterministic 2)) zero_digest = index (NewDejaVuDeterministic 2) \<and>
   prunes (NewDejaVuDeterministic 2)"
  by (simp add: run_simps)

section \<open>The cursor\<close>

text \<open>
  Claim C8. On an instance of capacity \<open>n \<ge> 1\<close>, after any calls \<open>hs\<close>, the call
  for any digest \<open>f\<close>, familiar or not, returns and moves the cursor from
  \<open>length hs mod n\<close> to the next slot modulo \<open>n\<close>; the size stays \<open>n\<close>.
\<close>

theorem cursor_advances_by_one:
  assumes "0 < n"
  shows "\<exists>d r d'. state_after n hs = Some d \<and> WitnessDigest f d = Inr (r, d') \<and>
           size_d d = int n \<and> size_d d' = int n \<and>
           index d = int (length hs mod n) \<and>
           index d' = (index d + 1) mod int n"
proof -
  from state_after_inv[OF assms, of hs]
  obtain d where d: "state_after n hs = Some d" "dv_inv n hs d" by blast
  from WitnessDigest_window[OF assms d(2), of f]
  obtain d' where d': "WitnessDigest f d = Inr (f \<in> set (window n hs), d')"
    "index d' = (index d + 1) mod int n" "size_d d' = size_d d" by blast
  have "size_d d = int n" "index d = int (length hs mod n)"
    using d(2) by (simp_all add: dv_inv_def)
  with d(1) d' show ?thesis by auto
qed

theorem cursor_advances_by_one_witness:
  "\<exists>d r d'. state_after 2 [filled_digest 1, filled_digest 2, filled_digest 3] = Some d \<and>
     WitnessDigest (filled_digest 3) d = Inr (r, d') \<and>
     size_d d = 2 \<and> size_d d' = 2 \<and> index d = 1 \<and> index d' = (index d + 1) mod 2"
  using cursor_advances_by_one [of 2 "[filled_digest 1, filled_digest 2, filled_digest 3]"
      "filled_digest 3"]
  by (simp add: mod_Suc)

section \<open>The zero digest\<close>

text \<open>
  Claim C10. A fresh instance of capacity \<open>n \<ge> 1\<close> holds the zero digest in every
  slot and has an empty lookup map, and its first call for the zero digest answers
  false. In every state the answer of a call is the presence of the digest in the
  lookup map; the buffer is not consulted for it.
\<close>

theorem zero_digest_first_sight:
  assumes "0 < n"
  shows "set (buffer (NewDejaVuDeterministic n)) = {zero_digest} \<and>
         lookup (NewDejaVuDeterministic n) = Map.empty \<and>
         (\<exists>d'. WitnessDigest zero_digest (NewDejaVuDeterministic n) = Inr (False, d')) \<and>
         (\<forall>f d r d'. WitnessDigest f d = Inr (r, d') \<longrightarrow> r = (f \<in> dom (lookup d)))"
proof (intro conjI)
  show "set (buffer (NewDejaVuDeterministic n)) = {zero_digest}"
    using assms by (simp add: NewDejaVuDeterministic_def)
  show "lookup (NewDejaVuDeterministic n) = Map.empty"
    by (simp add: NewDejaVuDeterministic_def)
  from WitnessDigest_window[OF assms dv_inv_New, of zero_digest]
  show "\<exists>d'. WitnessDigest zero_digest (NewDejaVuDeterministic n) = Inr (False, d')"
    by (auto simp: window_def)
  show "\<forall>f d r d'. WitnessDigest f d = Inr (r, d') \<longrightarrow> r = (f \<in> dom (lookup d))"
  proof (intro allI impI)
    fix f d r d'
    assume w: "WitnessDigest f d = Inr (r, d')"
    have "r = (lookup d f \<noteq> None)"
      using w by (cases "in_bounds (index d) (buffer d)"; cases "size_d d = 0")
        (simp_all add: WitnessDigest_def Let_def)
    then show "r = (f \<in> dom (lookup d))" by (simp add: dom_def)
  qed
qed

theorem zero_digest_first_sight_witness:
  "set (buffer (NewDejaVuDeterministic 3)) = {zero_digest} \<and>
   (\<exists>d'. WitnessDigest zero_digest (NewDejaVuDeterministic 3) = Inr (False, d')) \<and>
   zero_digest \<notin> dom (lookup (NewDejaVuDeterministic 3))"
proof -
  have pos: "(0::nat) < 3" by simp
  note first = zero_digest_first_sight [OF pos]
  from first obtain d' where
    w: "WitnessDigest zero_digest (NewDejaVuDeterministic 3) = Inr (False, d')"
    by blast
  from first have "\<forall>f d r d'. WitnessDigest f d = Inr (r, d') \<longrightarrow> r = (f \<in> dom (lookup d))"
    by blast
  with w have "False = (zero_digest \<in> dom (lookup (NewDejaVuDeterministic 3)))"
    by blast
  with first w show ?thesis by blast
qed

end
